theory Spec2Isabelle
  imports
    Main
    "HOL-Library.AList"
    "HOL-Library.Char_ord"
    "HOL-Library.List_Lexorder"
    "HOL-Library.Option_ord"
    "HOL-Library.Multiset"
begin

section \<open>The challenge store of the orchestrator (main.py)\<close>

text \<open>
  The store is the JSON document \<^verbatim>\<open>challenges.json\<close>: a dict from address to a dict with
  the keys \<^verbatim>\<open>registration_receipt\<close> and \<^verbatim>\<open>challenge_queue\<close>; the queue is a list of
  challenge dicts. The embedding is typed: a challenge dict is a record whose fields are
  the keys the program reads or writes, each an option, with \<open>None\<close> for a key that is
  absent from the dict (reading it with \<^verbatim>\<open>c["key"]\<close> raises KeyError in Python). Values have
  the types the remote service and the program itself give them (strings, and integers
  for the two counters); dicts of other shapes are outside the model.

  A Python dict keeps its keys in insertion order and the program iterates over it, so the
  store is an association list; \<open>map_of\<close> is the lookup \<^verbatim>\<open>db[address]\<close> and
  \<open>AList.update\<close> is the assignment \<^verbatim>\<open>db[address] = ...\<close> (an existing key keeps its place, a
  new key goes to the end).

  Strings are compared as Python compares them: lexicographically by code point, which on
  the UTF-8 bytes of \<open>string\<close> is the order of \<open>List_Lexorder\<close> over \<open>Char_ord\<close>.
\<close>

datatype py_error = KeyError | ValueError | TypeError | OSError

record challenge =
  challengeId :: "string option"
  challengeNumber :: "int option"
  campaignDay :: "int option"
  difficulty :: "string option"
  status :: "string option"
  noPreMine :: "string option"
  noPreMineHour :: "string option"
  latestSubmission :: "string option"
  availableAt :: "string option"
  solvedAt :: "string option"
  salt :: "string option"
  hash :: "string option"

record receipt =
  walletAddress :: "string option"
  payload :: string

record entry =
  registration_receipt :: "receipt option"
  challenge_queue :: "challenge list option"

type_synonym db = "(string \<times> entry) list"

text \<open>\<^verbatim>\<open>d.get("challenge_queue", [])\<close>: the queue of an entry, empty when the key is absent.\<close>

definition get_queue :: "entry \<Rightarrow> challenge list" where
  "get_queue e = (case challenge_queue e of None \<Rightarrow> [] | Some q \<Rightarrow> q)"

subsection \<open>init\_db: importing registration receipts\<close>

text \<open>
  What reading one input file gives: the file is missing, its content is not JSON, reading
  it fails in another way (caught by \<^verbatim>\<open>except Exception\<close>), or it is a document of the
  store's entry shape.
\<close>

datatype file_read = FileNotFound | JSONDecodeError | UnexpectedError | Loaded entry

text \<open>\<^verbatim>\<open>{c["challengeId"] for c in existing_queue}\<close>: KeyError at the first dict without the key.\<close>

fun existing_ids_of :: "challenge list \<Rightarrow> py_error + string list" where
  "existing_ids_of [] = Inr []"
| "existing_ids_of (c # cs) =
     (case challengeId c of
        None \<Rightarrow> Inl KeyError
      | Some i \<Rightarrow> (case existing_ids_of cs of Inl e \<Rightarrow> Inl e | Inr ids \<Rightarrow> Inr (i # ids)))"

text \<open>
  The loop over the incoming queue (lines 55-58). \<open>existing_ids\<close> is computed once, before
  the loop, and is not extended by it. The loop appends to \<open>existing_queue\<close> in place; a
  KeyError on an incoming dict stops it, and the result carries the queue as it stands then.
\<close>

fun append_new ::
  "string list \<Rightarrow> challenge list \<Rightarrow> challenge list \<Rightarrow> challenge list \<times> py_error option" where
  "append_new existing_ids [] existing_queue = (existing_queue, None)"
| "append_new existing_ids (c # cs) existing_queue =
     (case challengeId c of
        None \<Rightarrow> (existing_queue, Some KeyError)
      | Some i \<Rightarrow>
          if i \<in> set existing_ids then append_new existing_ids cs existing_queue
          else append_new existing_ids cs (existing_queue @ [c]))"

text \<open>
  The \<^verbatim>\<open>else\<close> branch of line 50, for an address the store knows. When the entry has the key
  \<^verbatim>\<open>challenge_queue\<close>, \<open>existing_queue\<close> is the store's own list object and the appends are
  visible in the store even if the loop is left by an exception; when the key is absent,
  \<open>existing_queue\<close> is a fresh list and reaches the store only through line 62.
  \<open>new_challenges_count\<close> is the number of appends.
\<close>

definition update_existing :: "string \<Rightarrow> entry \<Rightarrow> entry \<Rightarrow> db \<Rightarrow> db" where
  "update_existing address data e db =
     (let existing_queue = get_queue e in
      case existing_ids_of existing_queue of
        Inl _ \<Rightarrow> db
      | Inr existing_ids \<Rightarrow>
          (case append_new existing_ids (get_queue data) existing_queue of
             (q, Some _) \<Rightarrow>
               if challenge_queue e = None then db
               else AList.update address (e\<lparr>challenge_queue := Some q\<rparr>) db
           | (q, None) \<Rightarrow>
               let new_challenges_count = length q - length existing_queue in
               if new_challenges_count > 0
               then AList.update address (e\<lparr>challenge_queue := Some (sort_key challengeId q)\<rparr>) db
               else db))"

text \<open>The body of the loop over the input files (lines 36-71).\<close>

definition init_db_file :: "file_read \<Rightarrow> db \<Rightarrow> db" where
  "init_db_file f db =
     (case f of
        FileNotFound \<Rightarrow> db
      | JSONDecodeError \<Rightarrow> db
      | UnexpectedError \<Rightarrow> db
      | Loaded data \<Rightarrow>
          (case (case registration_receipt data of None \<Rightarrow> None | Some r \<Rightarrow> walletAddress r) of
             None \<Rightarrow> db
           | Some address \<Rightarrow>
               if address = [] then db
               else
                 (case map_of db address of
                    None \<Rightarrow>
                      AList.update address
                        \<lparr>registration_receipt = registration_receipt data,
                         challenge_queue = Some (get_queue data)\<rparr> db
                  | Some e \<Rightarrow> update_existing address data e db)))"

text \<open>
  \<open>init_db\<close> is the loop of the source's \<^verbatim>\<open>init_db\<close> on the loaded store; its result is the
  store handed to \<^verbatim>\<open>save_db\<close>.
\<close>

fun init_db :: "file_read list \<Rightarrow> db \<Rightarrow> db" where
  "init_db [] db = db"
| "init_db (f # fs) db = init_db fs (init_db_file f db)"

subsection \<open>What the passes do to the outside world\<close>

text \<open>
  The remote calls, the solver runs and the messages of the fetch pass, the solve pass and
  \<^verbatim>\<open>main\<close> are recorded as a trace, in the order in which the program performs them. A
  function that can raise returns \<open>Inl\<close> of the exception together with the trace up to
  that point.
\<close>

datatype report =
    NotInitialized
  | DecodeWarning
  | FetchError string
  | NotInDatabase string
  | AlreadyExists string string
  | NewChallenge string string
  | Expired string string
  | Attempting string string
  | FoundNonce string
  | Submitted string
  | SolverError string
  | SubmitError
  | Unexpected

datatype event =
    HttpGet string
  | RunSolver "string list"
  | HttpPost string
  | Print report

subsection \<open>fetch\_challenges\<close>

text \<open>
  The answer of \<^verbatim>\<open>requests.get\<close> followed by \<^verbatim>\<open>raise_for_status\<close> and
  \<^verbatim>\<open>response.json()["challenge"]\<close>: a \<^verbatim>\<open>RequestException\<close> (transport error, non-success
  status, undecodable body), a decoded body in which a key the program reads is absent
  (KeyError, which the loop does not catch), or the challenge descriptor.
\<close>

record challenge_data =
  challenge_id :: string
  challenge_number :: int
  day :: int
  difficulty' :: string
  no_pre_mine :: string
  no_pre_mine_hour :: string
  latest_submission :: string
  issued_at :: string

datatype get_result = GetRequestException | GetKeyError | Challenge challenge_data

definition challenge_url :: string where
  "challenge_url = ''https://sm.midnight.gd/api/challenge''"

text \<open>Lines 86-96. The keys \<^verbatim>\<open>solvedAt\<close>, \<^verbatim>\<open>salt\<close> and \<^verbatim>\<open>hash\<close> are absent.\<close>

definition new_challenge :: "challenge_data \<Rightarrow> challenge" where
  "new_challenge d =
     \<lparr>challengeId = Some (challenge_id d),
      challengeNumber = Some (challenge_number d),
      campaignDay = Some (day d),
      difficulty = Some (difficulty' d),
      status = Some ''available'',
      noPreMine = Some (no_pre_mine d),
      noPreMineHour = Some (no_pre_mine_hour d),
      latestSubmission = Some (latest_submission d),
      availableAt = Some (issued_at d),
      solvedAt = None, salt = None, hash = None\<rparr>"

text \<open>
  \<^verbatim>\<open>any(c["challengeId"] == i for c in challenge_queue)\<close>: stops at the first match; a dict
  without the key that is reached before a match raises KeyError.
\<close>

fun any_challengeId :: "string \<Rightarrow> challenge list \<Rightarrow> py_error + bool" where
  "any_challengeId i [] = Inr False"
| "any_challengeId i (c # cs) =
     (case challengeId c of
        None \<Rightarrow> Inl KeyError
      | Some j \<Rightarrow> if j = i then Inr True else any_challengeId i cs)"

text \<open>The body of the loop over the addresses (lines 81-119), given the remote's answer.\<close>

definition fetch_address :: "get_result \<Rightarrow> string \<Rightarrow> db \<Rightarrow> (py_error + db) \<times> event list" where
  "fetch_address response address db =
     (case response of
        GetRequestException \<Rightarrow> (Inr db, [HttpGet challenge_url, Print (FetchError address)])
      | GetKeyError \<Rightarrow> (Inl KeyError, [HttpGet challenge_url])
      | Challenge d \<Rightarrow>
          (case map_of db address of
             None \<Rightarrow> (Inr db, [HttpGet challenge_url, Print (NotInDatabase address)])
           | Some e \<Rightarrow>
               let queue = get_queue e in
               (case any_challengeId (challenge_id d) queue of
                  Inl err \<Rightarrow> (Inl err, [HttpGet challenge_url])
                | Inr True \<Rightarrow>
                    (Inr db, [HttpGet challenge_url, Print (AlreadyExists (challenge_id d) address)])
                | Inr False \<Rightarrow>
                    (Inr (AList.update address
                           (e\<lparr>challenge_queue :=
                                Some (sort_key challengeId (queue @ [new_challenge d]))\<rparr>) db),
                     [HttpGet challenge_url, Print (NewChallenge address (challenge_id d))]))))"

text \<open>
  The loop; \<open>remote n\<close> is what the remote answers to the request of iteration \<open>n\<close> (the
  request carries no parameter, so the answer is a function of the moment only).
\<close>

fun fetch_loop ::
  "(nat \<Rightarrow> get_result) \<Rightarrow> nat \<Rightarrow> string list \<Rightarrow> db \<Rightarrow> (py_error + db) \<times> event list" where
  "fetch_loop remote n [] db = (Inr db, [])"
| "fetch_loop remote n (address # addresses) db =
     (case fetch_address (remote n) address db of
        (Inl err, evs) \<Rightarrow> (Inl err, evs)
      | (Inr db', evs) \<Rightarrow>
          (case fetch_loop remote (Suc n) addresses db' of (r, evs') \<Rightarrow> (r, evs @ evs')))"

text \<open>
  \<open>fetch_challenges\<close> is the loop of the source's \<^verbatim>\<open>fetch_challenges\<close> on the loaded store;
  \<open>Inr\<close> of its result is the store handed to \<^verbatim>\<open>save_db\<close>, and \<open>Inl\<close> means that the
  function was left by an exception before \<^verbatim>\<open>save_db\<close>.
\<close>

definition fetch_challenges ::
  "(nat \<Rightarrow> get_result) \<Rightarrow> string list \<Rightarrow> db \<Rightarrow> (py_error + db) \<times> event list" where
  "fetch_challenges remote addresses db = fetch_loop remote 0 addresses db"

subsection \<open>solve\_challenges\<close>

text \<open>
  The surroundings of the solve pass. A request is identified by the place of the record
  it is made for: the address and the index in that address's queue.
  \<^item> \<open>fromisoformat\<close> is \<^verbatim>\<open>datetime.fromisoformat\<close>: \<open>None\<close> when it raises ValueError,
    otherwise a naive datetime or an aware one as an instant on the UTC time line;
  \<^item> \<open>run_solver\<close> is \<^verbatim>\<open>subprocess.run(command, check=True)\<close>: a non-zero exit, another
    failure to run the process, or the standard output after \<^verbatim>\<open>strip()\<close>;
  \<^item> \<open>http_post\<close> is \<^verbatim>\<open>requests.post\<close> followed by \<^verbatim>\<open>raise_for_status\<close>: a
    \<^verbatim>\<open>RequestException\<close> for a transport error or a non-success status, or else the body
    of the response, which is not JSON or is an object that may carry a hash;
  \<^item> \<open>utcnow\<close> is the text of \<^verbatim>\<open>datetime.now(timezone.utc)\<close> written to \<^verbatim>\<open>solvedAt\<close>.
\<close>

datatype datetime = Naive int | Aware int

datatype solver_result = CalledProcessError string | SolverOSError | CompletedProcess string

datatype body = NotJSON | Body "string option"

datatype post_result = ConnectionError | HTTPError | Response body

record env =
  fromisoformat :: "string \<Rightarrow> datetime option"
  run_solver :: "string \<times> nat \<Rightarrow> string list \<Rightarrow> solver_result"
  http_post :: "string \<times> nat \<Rightarrow> string \<Rightarrow> post_result"
  utcnow :: "string \<times> nat \<Rightarrow> string"

definition RUST_SOLVER_PATH :: string where
  "RUST_SOLVER_PATH = ''../rust_solver/target/release/ashmaize-solver''"

text \<open>\<^verbatim>\<open>s.replace("Z", "+00:00")\<close>\<close>

definition replace_Z :: "string \<Rightarrow> string" where
  "replace_Z s = concat (map (\<lambda>ch. if ch = CHR ''Z'' then ''+00:00'' else [ch]) s)"

definition submit_url :: "string \<Rightarrow> string \<Rightarrow> string \<Rightarrow> string" where
  "submit_url address cid nonce =
     ''https://sm.midnight.gd/api/solution/'' @ address @ ''/'' @ cid @ ''/'' @ nonce"

text \<open>
  Lines 166-185, after the solver has printed a nonce. The three assignments come before
  the body of the response is decoded.
\<close>

definition submit :: "env \<Rightarrow> string \<times> nat \<Rightarrow> string \<Rightarrow> string \<Rightarrow> challenge \<Rightarrow> challenge \<times> event list" where
  "submit E at cid nonce c =
     (let url = submit_url (fst at) cid nonce in
      case http_post E at url of
        ConnectionError \<Rightarrow> (c, [HttpPost url, Print SubmitError])
      | HTTPError \<Rightarrow> (c, [HttpPost url, Print SubmitError])
      | Response b \<Rightarrow>
          (let c' = c\<lparr>status := Some ''solved'', solvedAt := Some (utcnow E at), salt := Some nonce\<rparr>
           in (case b of
                 NotJSON \<Rightarrow> c'
               | Body None \<Rightarrow> c'
               | Body (Some h) \<Rightarrow> c'\<lparr>hash := Some h\<rparr>,
               [HttpPost url, Print (Submitted cid)])))"

text \<open>
  The \<^verbatim>\<open>try\<close> statement of lines 144-192. Building the command reads four more keys; a
  KeyError there is caught by \<^verbatim>\<open>except Exception\<close>, as is a failure to start the solver.
  No exception leaves the statement.
\<close>

definition attempt :: "env \<Rightarrow> string \<times> nat \<Rightarrow> string \<Rightarrow> string \<Rightarrow> challenge \<Rightarrow> challenge \<times> event list" where
  "attempt E at cid ls c =
     (case (difficulty c, noPreMine c, noPreMineHour c) of
        (Some d, Some npm, Some npmh) \<Rightarrow>
          (let command = [RUST_SOLVER_PATH, ''--address'', fst at, ''--challenge-id'', cid,
                          ''--difficulty'', d, ''--no-pre-mine'', npm,
                          ''--latest-submission'', ls, ''--no-pre-mine-hour'', npmh]
           in case run_solver E at command of
                CalledProcessError stderr \<Rightarrow> (c, [RunSolver command, Print (SolverError stderr)])
              | SolverOSError \<Rightarrow> (c, [RunSolver command, Print Unexpected])
              | CompletedProcess nonce \<Rightarrow>
                  (case submit E at cid nonce c of
                     (c', evs) \<Rightarrow> (c', [RunSolver command, Print (FoundNonce nonce)] @ evs)))
      | _ \<Rightarrow> (c, [Print Unexpected]))"

text \<open>
  The body of the loop over one queue (lines 130-192) for the record at index \<open>n\<close> of the
  queue of \<open>address\<close>. The reads of \<^verbatim>\<open>status\<close> and \<^verbatim>\<open>latestSubmission\<close>, the parse of the
  deadline, its comparison with \<open>now\<close> (TypeError against a naive datetime) and the two
  messages that read \<^verbatim>\<open>challengeId\<close> are outside the \<^verbatim>\<open>try\<close> statement.
\<close>

definition solve_challenge ::
  "env \<Rightarrow> int \<Rightarrow> string \<Rightarrow> nat \<Rightarrow> challenge \<Rightarrow> (py_error + challenge) \<times> event list" where
  "solve_challenge E now address n c =
     (case status c of
        None \<Rightarrow> (Inl KeyError, [])
      | Some s \<Rightarrow>
          if s \<noteq> ''available'' then (Inr c, [])
          else
            (case latestSubmission c of
               None \<Rightarrow> (Inl KeyError, [])
             | Some ls \<Rightarrow>
                 (case fromisoformat E (replace_Z ls) of
                    None \<Rightarrow> (Inl ValueError, [])
                  | Some (Naive t) \<Rightarrow> (Inl TypeError, [])
                  | Some (Aware deadline) \<Rightarrow>
                      if now > deadline
                      then
                        (case challengeId c of
                           None \<Rightarrow> (Inl KeyError, [])
                         | Some cid \<Rightarrow>
                             (Inr (c\<lparr>status := Some ''expired''\<rparr>), [Print (Expired cid address)]))
                      else
                        (case challengeId c of
                           None \<Rightarrow> (Inl KeyError, [])
                         | Some cid \<Rightarrow>
                             (case attempt E (address, n) cid ls c of
                                (c', evs) \<Rightarrow> (Inr c', Print (Attempting cid address) # evs))))))"

fun solve_queue ::
  "env \<Rightarrow> int \<Rightarrow> string \<Rightarrow> nat \<Rightarrow> challenge list \<Rightarrow> (py_error + challenge list) \<times> event list" where
  "solve_queue E now address n [] = (Inr [], [])"
| "solve_queue E now address n (c # cs) =
     (case solve_challenge E now address n c of
        (Inl err, evs) \<Rightarrow> (Inl err, evs)
      | (Inr c', evs) \<Rightarrow>
          (case solve_queue E now address (Suc n) cs of
             (Inl err, evs') \<Rightarrow> (Inl err, evs @ evs')
           | (Inr cs', evs') \<Rightarrow> (Inr (c' # cs'), evs @ evs')))"

text \<open>
  The loop over \<^verbatim>\<open>db.items()\<close>. The records are changed in place, so an entry without the
  key \<^verbatim>\<open>challenge_queue\<close> stays without it.
\<close>

fun solve_entries :: "env \<Rightarrow> int \<Rightarrow> db \<Rightarrow> (py_error + db) \<times> event list" where
  "solve_entries E now [] = (Inr [], [])"
| "solve_entries E now ((address, data) # rest) =
     (case (case challenge_queue data of
              None \<Rightarrow> (Inr data, [])
            | Some q \<Rightarrow>
                (case solve_queue E now address 0 q of
                   (Inl err, evs) \<Rightarrow> (Inl err, evs)
                 | (Inr q', evs) \<Rightarrow> (Inr (data\<lparr>challenge_queue := Some q'\<rparr>), evs))) of
        (Inl err, evs) \<Rightarrow> (Inl err, evs)
      | (Inr data', evs) \<Rightarrow>
          (case solve_entries E now rest of
             (Inl err, evs') \<Rightarrow> (Inl err, evs @ evs')
           | (Inr rest', evs') \<Rightarrow> (Inr ((address, data') # rest'), evs @ evs')))"

text \<open>
  \<open>solve_challenges\<close> is the loop of the source's \<^verbatim>\<open>solve_challenges\<close> on the loaded store,
  with \<open>now\<close> the instant read at line 126; \<open>Inr\<close> of its result is the store handed to
  \<^verbatim>\<open>save_db\<close>.
\<close>

definition solve_challenges :: "env \<Rightarrow> int \<Rightarrow> db \<Rightarrow> (py_error + db) \<times> event list" where
  "solve_challenges E now db = solve_entries E now db"

subsection \<open>load\_db, save\_db and main\<close>

text \<open>
  The store file \<^verbatim>\<open>challenges.json\<close> is its text, or \<open>None\<close> when the file does not exist.
  The JSON library is a parameter: \<open>json_load\<close> is \<^verbatim>\<open>json.load\<close> (\<open>None\<close> for
  \<^verbatim>\<open>JSONDecodeError\<close>) and \<open>json_dump\<close> gives the chunks that \<^verbatim>\<open>json.dump\<close> writes to the
  file one after the other.
\<close>

record json =
  json_load :: "string \<Rightarrow> db option"
  json_dump :: "db \<Rightarrow> string list"

definition load_db :: "json \<Rightarrow> string option \<Rightarrow> db \<times> event list" where
  "load_db J file =
     (case file of
        None \<Rightarrow> ([], [])
      | Some text \<Rightarrow>
          (case json_load J text of
             None \<Rightarrow> ([], [Print DecodeWarning])
           | Some db \<Rightarrow> (db, [])))"

text \<open>
  Writing the chunks to the open file. \<open>fail = Some k\<close> says that the write fails (or the
  process is stopped) when \<open>k\<close> chunks have been written; \<open>None\<close> that no write fails.
\<close>

fun write_chunks :: "nat option \<Rightarrow> string list \<Rightarrow> string \<Rightarrow> py_error option \<times> string" where
  "write_chunks fail [] f = (None, f)"
| "write_chunks fail (chunk # chunks) f =
     (if fail = Some 0 then (Some OSError, f)
      else write_chunks (map_option (\<lambda>k. k - 1) fail) chunks (f @ chunk))"

text \<open>
  \<^verbatim>\<open>open(DB_FILE, "w")\<close> creates the file or empties the existing one, whatever its content
  was; \<^verbatim>\<open>json.dump\<close> then writes into it.
\<close>

definition save_db :: "json \<Rightarrow> nat option \<Rightarrow> db \<Rightarrow> string option \<Rightarrow> py_error option \<times> string option" where
  "save_db J fail db file =
     (let opened = [] in
      case write_chunks fail (json_dump J db) opened of (r, f) \<Rightarrow> (r, Some f))"

datatype command = Init "file_read list" | Fetch "nat \<Rightarrow> get_result" | Solve env int

datatype outcome = Done | Rejected | Raised py_error

text \<open>
  A pass: \<^verbatim>\<open>load_db\<close>, the loop, \<^verbatim>\<open>save_db\<close>. An exception in the loop leaves the function
  before \<^verbatim>\<open>save_db\<close>, and the file is as it was.
\<close>

definition run_pass ::
  "json \<Rightarrow> nat option \<Rightarrow> (db \<Rightarrow> (py_error + db) \<times> event list) \<Rightarrow> string option \<Rightarrow>
   outcome \<times> string option \<times> event list" where
  "run_pass J fail loop file =
     (case load_db J file of
        (db, evs0) \<Rightarrow>
          (case loop db of
             (Inl err, evs) \<Rightarrow> (Raised err, file, evs0 @ evs)
           | (Inr db', evs) \<Rightarrow>
               (case save_db J fail db' file of
                  (None, file') \<Rightarrow> (Done, file', evs0 @ evs)
                | (Some err, file') \<Rightarrow> (Raised err, file', evs0 @ evs))))"

text \<open>
  \<^verbatim>\<open>main\<close> after argument parsing (lines 216-230). For \<^verbatim>\<open>fetch\<close> and \<^verbatim>\<open>solve\<close> it loads the
  store itself first, and the pass loads it again.
\<close>

definition main :: "json \<Rightarrow> nat option \<Rightarrow> command \<Rightarrow> string option \<Rightarrow> outcome \<times> string option \<times> event list" where
  "main J fail cmd file =
     (case cmd of
        Init files \<Rightarrow> run_pass J fail (\<lambda>db. (Inr (init_db files db), [])) file
      | Fetch remote \<Rightarrow>
          (case load_db J file of
             (db, evs0) \<Rightarrow>
               if db = [] then (Rejected, file, evs0 @ [Print NotInitialized])
               else
                 (let addresses = map fst db in
                  case run_pass J fail (fetch_challenges remote addresses) file of
                    (r, file', evs) \<Rightarrow> (r, file', evs0 @ evs)))
      | Solve E now \<Rightarrow>
          (case load_db J file of
             (db, evs0) \<Rightarrow>
               if db = [] then (Rejected, file, evs0 @ [Print NotInitialized])
               else
                 (case run_pass J fail (solve_challenges E now) file of
                    (r, file', evs) \<Rightarrow> (r, file', evs0 @ evs))))"

subsection \<open>Sequences of operations on the store\<close>

text \<open>
  The store that an operation leaves behind, as a function of the store it found: the
  result of the loop when the pass reaches \<^verbatim>\<open>save_db\<close>, the store as it was when the pass
  is left by an exception or rejected. Here the document is the store value itself, that
  is, what \<^verbatim>\<open>save_db\<close> has written is what the next \<^verbatim>\<open>load_db\<close> reads.
\<close>

definition saved :: "db \<Rightarrow> (py_error + db) \<times> event list \<Rightarrow> db" where
  "saved db r = (case fst r of Inl _ \<Rightarrow> db | Inr db' \<Rightarrow> db')"

definition run_command :: "command \<Rightarrow> db \<Rightarrow> db" where
  "run_command cmd db =
     (case cmd of
        Init files \<Rightarrow> init_db files db
      | Fetch remote \<Rightarrow>
          if db = [] then db else saved db (fetch_challenges remote (map fst db) db)
      | Solve E now \<Rightarrow>
          if db = [] then db else saved db (solve_challenges E now db))"

fun run_commands :: "command list \<Rightarrow> db \<Rightarrow> db" where
  "run_commands [] db = db"
| "run_commands (cmd # cmds) db = run_commands cmds (run_command cmd db)"

subsection \<open>Notions used in the statements\<close>

text \<open>
  The records that an import of the incoming queue \<open>cs\<close> appends to the queue \<open>q\<close>: those
  before the first incoming record without a \<^verbatim>\<open>challengeId\<close> whose id no record of \<open>q\<close> has.
\<close>

definition fresh :: "challenge list \<Rightarrow> challenge list \<Rightarrow> challenge list" where
  "fresh q cs =
     filter (\<lambda>c. \<forall>i. challengeId c = Some i \<longrightarrow> i \<notin> set (map (\<lambda>c. the (challengeId c)) q))
       (takeWhile (\<lambda>c. challengeId c \<noteq> None) cs)"

text \<open>
  A record moves forward: it stays as it is, or it was \<^verbatim>\<open>available\<close> and is now the same
  record marked \<^verbatim>\<open>expired\<close>, or the same record marked \<^verbatim>\<open>solved\<close> with \<^verbatim>\<open>solvedAt\<close> and
  \<^verbatim>\<open>salt\<close> set and \<^verbatim>\<open>hash\<close> possibly set.
\<close>

definition status_moves :: "challenge \<Rightarrow> challenge \<Rightarrow> bool" where
  "status_moves c c' \<longleftrightarrow>
     c' = c \<or>
     status c = Some ''available'' \<and>
       (c' = c\<lparr>status := Some ''expired''\<rparr> \<or>
        (\<exists>t nonce h. c' = c\<lparr>status := Some ''solved'', solvedAt := Some t, salt := Some nonce, hash := h\<rparr>))"

text \<open>
  A queue evolves into another one when each of its records has a place of its own in the
  new queue in which it has moved forward; the new queue may hold further records and be
  in another order.
\<close>

definition queue_evolves :: "challenge list \<Rightarrow> challenge list \<Rightarrow> bool" where
  "queue_evolves q q' \<longleftrightarrow> (\<exists>p. list_all2 status_moves q p \<and> mset p \<subseteq># mset q')"

definition store_evolves :: "db \<Rightarrow> db \<Rightarrow> bool" where
  "store_evolves db db' \<longleftrightarrow>
     (\<forall>a e. map_of db a = Some e \<longrightarrow>
        (\<exists>e'. map_of db' a = Some e' \<and> queue_evolves (get_queue e) (get_queue e')))"

text \<open>A queue in ascending order of \<^verbatim>\<open>challengeId\<close> in which no two records have the same id.\<close>

definition sorted_unique :: "challenge list \<Rightarrow> bool" where
  "sorted_unique q \<longleftrightarrow> sorted (map challengeId q) \<and> distinct (map challengeId q)"

text \<open>A property of the queue of every address of the store.\<close>

definition every_queue :: "(challenge list \<Rightarrow> bool) \<Rightarrow> db \<Rightarrow> bool" where
  "every_queue P db =
     list_all (\<lambda>a. case map_of db a of None \<Rightarrow> True | Some e \<Rightarrow> P (get_queue e)) (map fst db)"

text \<open>
  An input file whose queue is itself sorted and free of duplicates, each record carrying a
  \<^verbatim>\<open>challengeId\<close>; a file that is missing or unreadable is skipped and puts no condition.
\<close>

definition well_formed_file :: "file_read \<Rightarrow> bool" where
  "well_formed_file f =
     (case f of
        Loaded data \<Rightarrow>
          list_all (\<lambda>c. challengeId c \<noteq> None) (get_queue data) \<and> sorted_unique (get_queue data)
      | _ \<Rightarrow> True)"

definition well_formed_import :: "command \<Rightarrow> bool" where
  "well_formed_import cmd = (case cmd of Init files \<Rightarrow> list_all well_formed_file files | _ \<Rightarrow> True)"

text \<open>The events that reach outside the program: remote requests and solver runs.\<close>

definition is_call :: "event \<Rightarrow> bool" where
  "is_call ev = (case ev of HttpGet _ \<Rightarrow> True | RunSolver _ \<Rightarrow> True | HttpPost _ \<Rightarrow> True | Print _ \<Rightarrow> False)"

subsection \<open>Example values\<close>

text \<open>
  A record as the remote service issues it, an entry of the address \<^verbatim>\<open>addr1\<close>, an answer of
  the issuance endpoint, surroundings in which the solver prints a nonce and the deadline of
  \<open>ex_c1\<close> is the instant 100, and a small JSON library that writes the addresses of the store
  between braces.
\<close>

definition ex_c1 :: challenge where
  "ex_c1 =
     \<lparr>challengeId = Some ''c1'', challengeNumber = Some 154, campaignDay = Some 7,
      difficulty = Some ''000FFFFF'', status = Some ''available'',
      noPreMine = Some ''fd651ac2'', noPreMineHour = Some ''509681483'',
      latestSubmission = Some ''2025-11-06T08:59:59.000Z'',
      availableAt = Some ''2025-11-05T09:00:00.000Z'',
      solvedAt = None, salt = None, hash = None\<rparr>"

definition ex_c :: "string \<Rightarrow> challenge" where
  "ex_c i = ex_c1\<lparr>challengeId := Some i\<rparr>"

definition ex_entry :: "challenge list \<Rightarrow> entry" where
  "ex_entry q =
     \<lparr>registration_receipt = Some \<lparr>walletAddress = Some ''addr1'', payload = ''receipt''\<rparr>,
      challenge_queue = Some q\<rparr>"

definition ex_data :: "string \<Rightarrow> challenge_data" where
  "ex_data i =
     \<lparr>challenge_id = i, challenge_number = 155, day = 7, difficulty' = ''000FFFFF'',
      no_pre_mine = ''fd651ac2'', no_pre_mine_hour = ''509681483'',
      latest_submission = ''2025-11-06T09:59:59.000Z'', issued_at = ''2025-11-05T10:00:00.000Z''\<rparr>"

definition ex_env :: "post_result \<Rightarrow> env" where
  "ex_env r =
     \<lparr>fromisoformat = (\<lambda>s. if s = ''2025-11-06T08:59:59.000+00:00'' then Some (Aware 100) else None),
      run_solver = (\<lambda>at command. CompletedProcess ''abc123''),
      http_post = (\<lambda>at url. r),
      utcnow = (\<lambda>at. ''2025-11-05T10:00:00.000Z'')\<rparr>"

definition ex_no_deadline :: challenge where
  "ex_no_deadline = (ex_c ''c0'')\<lparr>latestSubmission := None\<rparr>"

definition ex_unsorted_file :: file_read where
  "ex_unsorted_file = Loaded (ex_entry [ex_c ''c2'', ex_c ''c1''])"

definition ex_json :: json where
  "ex_json =
     \<lparr>json_load = (\<lambda>text. if text = ''{}'' then Some [] else None),
      json_dump = (\<lambda>db. [''{''] @ map (\<lambda>(a, e). a) db @ [''}''])\<rparr>"

section \<open>Properties of the import\<close>

lemma existing_ids_of_eq:
  "existing_ids_of q =
     (if \<forall>c\<in>set q. challengeId c \<noteq> None then Inr (map (\<lambda>c. the (challengeId c)) q)
      else Inl KeyError)"
  by (induction q) (auto split: option.splits sum.splits)

lemma append_new_eq:
  "append_new ids cs q =
     (q @ filter (\<lambda>c. \<forall>i. challengeId c = Some i \<longrightarrow> i \<notin> set ids)
            (takeWhile (\<lambda>c. challengeId c \<noteq> None) cs),
      if \<forall>c\<in>set cs. challengeId c \<noteq> None then None else Some KeyError)"
  by (induction cs arbitrary: q) (auto split: option.splits)

lemma fresh_has_id: "c \<in> set (fresh q cs) \<Longrightarrow> challengeId c \<noteq> None"
  by (auto simp: fresh_def dest: set_takeWhileD)

lemma fresh_subset: "set (fresh q cs) \<subseteq> set cs"
  by (auto simp: fresh_def dest: set_takeWhileD)

lemma fresh_again:
  assumes "set q \<union> set (fresh q cs) \<subseteq> set q'"
  shows "fresh q' cs = []"
  unfolding fresh_def filter_empty_conv
proof (intro ballI notI)
  fix c
  assume c: "c \<in> set (takeWhile (\<lambda>c. challengeId c \<noteq> None) cs)"
    and new: "\<forall>i. challengeId c = Some i \<longrightarrow> i \<notin> set (map (\<lambda>c. the (challengeId c)) q')"
  from c obtain i where i: "challengeId c = Some i"
    by (auto dest: set_takeWhileD)
  with new have n: "i \<notin> (\<lambda>c. the (challengeId c)) ` set q'"
    by simp
  with assms have "i \<notin> (\<lambda>c. the (challengeId c)) ` set q"
    by auto
  with c i have "c \<in> set (fresh q cs)"
    by (auto simp: fresh_def)
  with assms have "c \<in> set q'"
    by auto
  with n i show False
    by force
qed

text \<open>The four ways in which the import of a file for a known address ends.\<close>

lemma update_existing_eq:
  "update_existing a data e db =
     (if \<exists>c\<in>set (get_queue e). challengeId c = None then db
      else if \<exists>c\<in>set (get_queue data). challengeId c = None
        then (if challenge_queue e = None then db
              else AList.update a
                (e\<lparr>challenge_queue := Some (get_queue e @ fresh (get_queue e) (get_queue data))\<rparr>) db)
      else if fresh (get_queue e) (get_queue data) = [] then db
      else AList.update a
        (e\<lparr>challenge_queue :=
             Some (sort_key challengeId (get_queue e @ fresh (get_queue e) (get_queue data)))\<rparr>) db)"
  by (auto simp: update_existing_def existing_ids_of_eq append_new_eq fresh_def Let_def)

lemma update_existing_again:
  assumes "map_of db a = Some e"
  shows "\<exists>e'. map_of (update_existing a data e db) a = Some e' \<and>
     update_existing a data e' (update_existing a data e db) = update_existing a data e db"
proof -
  let ?q = "get_queue e" and ?qd = "get_queue data"
  let ?q' = "?q @ fresh ?q ?qd"
  have f1: "fresh ?q' ?qd = []"
    by (rule fresh_again[where q = ?q]) simp
  have f2: "fresh (sort_key challengeId ?q') ?qd = []"
    by (rule fresh_again[where q = ?q]) simp
  show ?thesis
    using assms f1 f2
    by (auto simp: update_existing_eq[of a data e db]
        update_existing_eq[of a data _ "AList.update a _ db"]
        AList.update_conv' get_queue_def dest: fresh_has_id split: option.splits)
qed

text \<open>
  C6. Importing a receipt file twice in succession gives the same store as importing it
  once, for every store and every outcome of reading the file: the second import finds
  every challengeId of the file in the queue and adds nothing.
\<close>

theorem import_twice_same_store: "init_db [f] (init_db [f] db) = init_db [f] db"
proof (cases f)
  case (Loaded data)
  show ?thesis
  proof (cases "case registration_receipt data of None \<Rightarrow> None | Some r \<Rightarrow> walletAddress r")
    case None
    with Loaded show ?thesis
      by (simp add: init_db_file_def)
  next
    case (Some a)
    note addr = this
    show ?thesis
    proof (cases "a = []")
      case True
      with Loaded addr show ?thesis
        by (simp add: init_db_file_def)
    next
      case False
      show ?thesis
      proof (cases "map_of db a")
        case None
        let ?e = "\<lparr>registration_receipt = registration_receipt data,
                  challenge_queue = Some (get_queue data)\<rparr>"
        have "fresh (get_queue data) (get_queue data) = []"
          using fresh_subset[of "[]" "get_queue data"]
          by (intro fresh_again[where q = "[]"]) simp
        then have "update_existing a data ?e (AList.update a ?e db) = AList.update a ?e db"
          by (simp add: update_existing_eq get_queue_def)
        with Loaded addr False None show ?thesis
          by (simp add: init_db_file_def AList.update_conv')
      next
        case (Some e)
        from update_existing_again[OF this, of data]
        show ?thesis
          using Loaded addr False Some by (auto simp: init_db_file_def)
      qed
    qed
  qed
qed (simp_all add: init_db_file_def)

section \<open>Properties of the fetch pass\<close>

lemma any_challengeId_eq:
  "\<forall>c\<in>set q. challengeId c \<noteq> None \<Longrightarrow>
   any_challengeId i q = Inr (Some i \<in> challengeId ` set q)"
  by (induction q) (auto split: option.splits)

lemma any_challengeId_False:
  "any_challengeId i q = Inr False \<Longrightarrow>
   (\<forall>c\<in>set q. challengeId c \<noteq> None) \<and> Some i \<notin> challengeId ` set q"
  by (induction q) (auto split: option.splits if_splits)

lemma update_known_keys: "map_of db a = Some e \<Longrightarrow> map fst (AList.update a e' db) = map fst db"
  by (auto simp: AList.update_keys dest: map_of_SomeD intro: rev_image_eqI)

lemma fetch_address_keys:
  "fetch_address r a db = (Inr db', evs) \<Longrightarrow> map fst db' = map fst db"
  by (auto simp: fetch_address_def update_known_keys Let_def
      split: get_result.splits option.splits sum.splits bool.splits if_splits)

lemma fetch_loop_keys:
  "fetch_loop remote n as db = (Inr db', evs) \<Longrightarrow> map fst db' = map fst db"
proof (induction as arbitrary: n db evs)
  case Nil
  then show ?case by simp
next
  case (Cons a as)
  from Cons.prems obtain db1 evs1 evs2
    where 1: "fetch_address (remote n) a db = (Inr db1, evs1)"
      and 2: "fetch_loop remote (Suc n) as db1 = (Inr db', evs2)"
    by (auto split: prod.splits sum.splits)
  from Cons.IH[OF 2] fetch_address_keys[OF 1] show ?case
    by simp
qed

text \<open>
  C8. A fetch pass over any list of addresses leaves the addresses of the store as they
  were, in the same order: an address that the store does not know gets no entry. This holds
  for the store that the pass saves and, when the pass is left by an exception, for the
  store that stays on disk.
\<close>

theorem fetch_creates_no_address:
  "map fst (saved db (fetch_challenges remote addresses db)) = map fst db"
  by (cases "fetch_loop remote 0 addresses db")
    (auto simp: saved_def fetch_challenges_def split: sum.splits dest: fetch_loop_keys)

text \<open>
  C7. For an address the store knows, whose queued records all carry a \<^verbatim>\<open>challengeId\<close>, the
  fetch of a challenge returns normally. When the id of the fetched challenge is in the
  queue the store is unchanged. Otherwise the queue of the address becomes the old queue
  with the new record appended, sorted by \<^verbatim>\<open>challengeId\<close>: exactly one record more, of
  status \<^verbatim>\<open>available\<close>, and no other address is touched. Fetching the same challenge once
  more changes nothing.
\<close>

theorem fetch_known_address:
  assumes known: "map_of db a = Some e"
    and ids: "\<forall>c\<in>set (get_queue e). challengeId c \<noteq> None"
  shows "\<exists>db'. fst (fetch_address (Challenge d) a db) = Inr db' \<and>
      (Some (challenge_id d) \<in> challengeId ` set (get_queue e) \<longrightarrow> db' = db) \<and>
      (Some (challenge_id d) \<notin> challengeId ` set (get_queue e) \<longrightarrow>
         map_of db' a =
           Some (e\<lparr>challenge_queue := Some (sort_key challengeId (get_queue e @ [new_challenge d]))\<rparr>) \<and>
         mset (get_queue (the (map_of db' a))) = add_mset (new_challenge d) (mset (get_queue e)) \<and>
         status (new_challenge d) = Some ''available'' \<and>
         (\<forall>b. b \<noteq> a \<longrightarrow> map_of db' b = map_of db b)) \<and>
      fst (fetch_address (Challenge d) a db') = Inr db'"
proof (cases "Some (challenge_id d) \<in> challengeId ` set (get_queue e)")
  case True
  with known ids show ?thesis
    by (simp add: fetch_address_def any_challengeId_eq)
next
  case False
  let ?q' = "sort_key challengeId (get_queue e @ [new_challenge d])"
  let ?e' = "e\<lparr>challenge_queue := Some ?q'\<rparr>"
  let ?db' = "AList.update a ?e' db"
  have step: "fst (fetch_address (Challenge d) a db) = Inr ?db'"
    using known ids False by (simp add: fetch_address_def any_challengeId_eq)
  have look: "map_of ?db' a = Some ?e'"
    by (simp add: AList.update_conv')
  have q': "get_queue ?e' = ?q'"
    by (simp add: get_queue_def)
  have ids': "\<forall>c\<in>set ?q'. challengeId c \<noteq> None"
    using ids by (auto simp: new_challenge_def)
  have there: "Some (challenge_id d) \<in> challengeId ` set ?q'"
    by (auto simp: new_challenge_def intro!: image_eqI[where x = "new_challenge d"])
  have again: "fst (fetch_address (Challenge d) a ?db') = Inr ?db'"
    using look ids' there by (simp add: fetch_address_def any_challengeId_eq q' del: set_sort)
  show ?thesis
    using step look again False
    by (auto simp: AList.update_conv' get_queue_def new_challenge_def)
qed

text \<open>
  The theorem at the store of the example scenario: fetching \<^verbatim>\<open>c1\<close> again leaves the queue
  as it is, fetching \<^verbatim>\<open>c0\<close> puts the new record in front of \<^verbatim>\<open>c1\<close>.
\<close>

theorem fetch_known_address_witness:
  "fst (fetch_address (Challenge (ex_data ''c1'')) ''addr1'' [(''addr1'', ex_entry [ex_c1])]) =
     Inr [(''addr1'', ex_entry [ex_c1])] \<and>
   fst (fetch_address (Challenge (ex_data ''c0'')) ''addr1'' [(''addr1'', ex_entry [ex_c1])]) =
     Inr [(''addr1'', ex_entry [new_challenge (ex_data ''c0''), ex_c1])]"
  using fetch_known_address[of "[(''addr1'', ex_entry [ex_c1])]" "''addr1''" "ex_entry [ex_c1]" "ex_data ''c1''"]
    fetch_known_address[of "[(''addr1'', ex_entry [ex_c1])]" "''addr1''" "ex_entry [ex_c1]" "ex_data ''c0''"]
  by (auto simp: ex_entry_def ex_c1_def ex_data_def get_queue_def new_challenge_def fetch_address_def)

section \<open>Properties of the solve pass\<close>

text \<open>
  A pass that reaches \<^verbatim>\<open>save_db\<close> has run the body of the loop on every record of every
  queue, and the saved queue holds the results in the same places.
\<close>

lemma solve_queue_nth:
  "solve_queue E now a n q = (Inr q', evs) \<Longrightarrow>
   length q' = length q \<and>
   (\<forall>i<length q. \<exists>evs'. solve_challenge E now a (n + i) (q ! i) = (Inr (q' ! i), evs'))"
proof (induction q arbitrary: n q' evs)
  case Nil
  then show ?case by simp
next
  case (Cons c cs)
  from Cons.prems obtain c' cs' evs1 evs2
    where 1: "solve_challenge E now a n c = (Inr c', evs1)"
      and 2: "solve_queue E now a (Suc n) cs = (Inr cs', evs2)"
      and q': "q' = c' # cs'"
    by (auto split: prod.splits sum.splits)
  from Cons.IH[OF 2] 1 q' show ?case
    by (auto simp: nth_Cons split: nat.splits)
qed

lemma solve_entries_lookup:
  "solve_entries E now db = (Inr db', evs) \<Longrightarrow> map_of db a = Some e \<Longrightarrow>
   (case challenge_queue e of
      None \<Rightarrow> map_of db' a = Some e
    | Some q \<Rightarrow> \<exists>q' evs'. solve_queue E now a 0 q = (Inr q', evs') \<and>
                  map_of db' a = Some (e\<lparr>challenge_queue := Some q'\<rparr>))"
proof (induction db arbitrary: db' evs)
  case Nil
  then show ?case by simp
next
  case (Cons p db)
  obtain b d where p: "p = (b, d)" by (cases p)
  from Cons.prems(1) p obtain d' rest' evs1 evs2
    where 1: "(case challenge_queue d of
              None \<Rightarrow> (Inr d, [])
            | Some q \<Rightarrow>
                (case solve_queue E now b 0 q of
                   (Inl err, evs) \<Rightarrow> (Inl err, evs)
                 | (Inr q', evs) \<Rightarrow> (Inr (d\<lparr>challenge_queue := Some q'\<rparr>), evs))) = (Inr d', evs1)"
      and 2: "solve_entries E now db = (Inr rest', evs2)"
      and db': "db' = (b, d') # rest'"
    by (auto split: prod.splits sum.splits)
  show ?case
  proof (cases "a = b")
    case True
    with Cons.prems(2) p have "e = d" by simp
    with 1 db' True show ?thesis
      by (auto split: option.splits prod.splits sum.splits)
  next
    case False
    with Cons.prems(2) p have "map_of db a = Some e" by simp
    from Cons.IH[OF 2 this] db' False show ?thesis
      by (auto split: option.splits)
  qed
qed

lemma solve_challenges_nth:
  assumes "solve_challenges E now db = (Inr db', evs)"
    and "map_of db a = Some e" and "challenge_queue e = Some q" and "i < length q"
  shows "\<exists>q' evs'. map_of db' a = Some (e\<lparr>challenge_queue := Some q'\<rparr>) \<and> length q' = length q \<and>
           solve_challenge E now a i (q ! i) = (Inr (q' ! i), evs')"
proof -
  from solve_entries_lookup[OF assms(1)[unfolded solve_challenges_def] assms(2)] assms(3)
  obtain q' evs' where 1: "solve_queue E now a 0 q = (Inr q', evs')"
    and 2: "map_of db' a = Some (e\<lparr>challenge_queue := Some q'\<rparr>)"
    by auto
  from solve_queue_nth[OF 1] assms(4) 2 show ?thesis
    by auto
qed


lemma solve_entries_keys:
  "solve_entries E now db = (Inr db', evs) \<Longrightarrow> map fst db' = map fst db"
proof (induction db arbitrary: db' evs)
  case Nil
  then show ?case by simp
next
  case (Cons p db)
  obtain b d where p: "p = (b, d)" by (cases p)
  from Cons.prems p obtain d' rest' evs2
    where 2: "solve_entries E now db = (Inr rest', evs2)" and db': "db' = (b, d') # rest'"
    by (auto split: prod.splits sum.splits)
  from Cons.IH[OF 2] db' p show ?case by simp
qed

text \<open>
  C2. Take a record that is \<^verbatim>\<open>available\<close>, whose deadline has not passed, and for which the
  solver prints a nonce while the submission fails, by a transport error or by a
  non-success status. The body of the loop returns the record as it was, after one solver
  run and one submission request; and in the store that the pass leaves behind the record
  is in its place unchanged: still \<^verbatim>\<open>available\<close>, with \<^verbatim>\<open>salt\<close>, \<^verbatim>\<open>solvedAt\<close> and \<^verbatim>\<open>hash\<close> as
  before. A later pass finds the same available record.
\<close>

theorem failed_submission_keeps_available:
  assumes "map_of db a = Some e" and "challenge_queue e = Some q" and "i < length q"
    and "q ! i = c"
    and "status c = Some ''available''"
    and "challengeId c = Some cid"
    and "latestSubmission c = Some ls"
    and "fromisoformat E (replace_Z ls) = Some (Aware t)" and "now \<le> t"
    and "difficulty c = Some d" and "noPreMine c = Some npm" and "noPreMineHour c = Some npmh"
    and "command = [RUST_SOLVER_PATH, ''--address'', a, ''--challenge-id'', cid,
                    ''--difficulty'', d, ''--no-pre-mine'', npm,
                    ''--latest-submission'', ls, ''--no-pre-mine-hour'', npmh]"
    and "run_solver E (a, i) command = CompletedProcess nonce"
    and "http_post E (a, i) (submit_url a cid nonce) \<in> {ConnectionError, HTTPError}"
  shows "solve_challenge E now a i c =
           (Inr c, [Print (Attempting cid a), RunSolver command, Print (FoundNonce nonce),
                    HttpPost (submit_url a cid nonce), Print SubmitError]) \<and>
         (\<exists>e' q'. map_of (saved db (solve_challenges E now db)) a = Some e' \<and>
            challenge_queue e' = Some q' \<and> q' ! i = c \<and>
            status (q' ! i) = Some ''available'' \<and> salt (q' ! i) = salt c \<and>
            solvedAt (q' ! i) = solvedAt c \<and> hash (q' ! i) = hash c)"
proof -
  have step: "solve_challenge E now a i c =
           (Inr c, [Print (Attempting cid a), RunSolver command, Print (FoundNonce nonce),
                    HttpPost (submit_url a cid nonce), Print SubmitError])"
    using assms(5-15) by (auto simp: solve_challenge_def attempt_def submit_def)
  show ?thesis
  proof (cases "solve_challenges E now db")
    case (Pair r evs)
    show ?thesis
    proof (cases r)
      case (Inl err)
      with Pair assms(1-5) step show ?thesis
        by (simp add: saved_def)
    next
      case (Inr db')
      from solve_challenges_nth[OF Pair[unfolded Inr] assms(1-3)] step assms(4,5) Pair Inr
      show ?thesis
        by (auto simp: saved_def)
    qed
  qed
qed

text \<open>The theorem at the example store, with a submission answered by an error status.\<close>

theorem failed_submission_keeps_available_witness:
  "\<exists>e' q'. map_of (saved [(''addr1'', ex_entry [ex_c1])]
               (solve_challenges (ex_env HTTPError) 50 [(''addr1'', ex_entry [ex_c1])])) ''addr1'' = Some e' \<and>
      challenge_queue e' = Some q' \<and> q' ! 0 = ex_c1"
  using failed_submission_keeps_available[of "[(''addr1'', ex_entry [ex_c1])]" "''addr1''"
      "ex_entry [ex_c1]" "[ex_c1]" 0 ex_c1 "''c1''" "''2025-11-06T08:59:59.000Z''" "ex_env HTTPError"
      100 50 "''000FFFFF''" "''fd651ac2''" "''509681483''" _ "''abc123''"]
  by (auto simp: ex_entry_def ex_c1_def ex_env_def replace_Z_def)

text \<open>
  C3. Take a record that is \<^verbatim>\<open>available\<close> and whose deadline is strictly before \<open>now\<close>. The
  body of the loop returns the record with its status set to \<^verbatim>\<open>expired\<close> and nothing else
  changed, and its only event is the message that the challenge has expired: no solver
  run, no submission. A pass that reaches \<^verbatim>\<open>save_db\<close> saves the record so, with \<^verbatim>\<open>salt\<close>
  and \<^verbatim>\<open>solvedAt\<close> as they were.
\<close>

theorem expired_before_solving:
  assumes "map_of db a = Some e" and "challenge_queue e = Some q" and "i < length q"
    and "q ! i = c"
    and "status c = Some ''available''"
    and "challengeId c = Some cid"
    and "latestSubmission c = Some ls"
    and "fromisoformat E (replace_Z ls) = Some (Aware t)" and "t < now"
  shows "solve_challenge E now a i c = (Inr (c\<lparr>status := Some ''expired''\<rparr>), [Print (Expired cid a)]) \<and>
         (\<forall>db' evs. solve_challenges E now db = (Inr db', evs) \<longrightarrow>
            (\<exists>e' q'. map_of db' a = Some e' \<and> challenge_queue e' = Some q' \<and>
               q' ! i = c\<lparr>status := Some ''expired''\<rparr> \<and>
               salt (q' ! i) = salt c \<and> solvedAt (q' ! i) = solvedAt c))"
proof -
  have step: "solve_challenge E now a i c = (Inr (c\<lparr>status := Some ''expired''\<rparr>), [Print (Expired cid a)])"
    using assms(5-9) by (simp add: solve_challenge_def)
  show ?thesis
  proof (intro conjI allI impI)
    show "solve_challenge E now a i c = (Inr (c\<lparr>status := Some ''expired''\<rparr>), [Print (Expired cid a)])"
      by (rule step)
  next
    fix db' evs
    assume "solve_challenges E now db = (Inr db', evs)"
    from solve_challenges_nth[OF this assms(1-3)] obtain q' evs'
      where 1: "map_of db' a = Some (e\<lparr>challenge_queue := Some q'\<rparr>)"
        and 2: "solve_challenge E now a i (q ! i) = (Inr (q' ! i), evs')"
      by blast
    from 2 step assms(4) have "q' ! i = c\<lparr>status := Some ''expired''\<rparr>"
      by simp
    with 1 show "\<exists>e' q'. map_of db' a = Some e' \<and> challenge_queue e' = Some q' \<and>
               q' ! i = c\<lparr>status := Some ''expired''\<rparr> \<and>
               salt (q' ! i) = salt c \<and> solvedAt (q' ! i) = solvedAt c"
      by simp
  qed
qed

text \<open>The theorem at the example store, at an instant after the deadline of \<open>ex_c1\<close>.\<close>

theorem expired_before_solving_witness:
  "solve_challenge (ex_env (Response NotJSON)) 200 ''addr1'' 0 ex_c1 =
     (Inr (ex_c1\<lparr>status := Some ''expired''\<rparr>), [Print (Expired ''c1'' ''addr1'')]) \<and>
   solve_challenges (ex_env (Response NotJSON)) 200 [(''addr1'', ex_entry [ex_c1])] =
     (Inr [(''addr1'', ex_entry [ex_c1\<lparr>status := Some ''expired''\<rparr>])], [Print (Expired ''c1'' ''addr1'')])"
  using expired_before_solving[of "[(''addr1'', ex_entry [ex_c1])]" "''addr1''"
      "ex_entry [ex_c1]" "[ex_c1]" 0 ex_c1 "''c1''" "''2025-11-06T08:59:59.000Z''"
      "ex_env (Response NotJSON)" 100 200]
  by (auto simp: ex_entry_def ex_c1_def ex_env_def replace_Z_def solve_challenges_def solve_challenge_def)

text \<open>
  C5. The reads of \<^verbatim>\<open>status\<close> and \<^verbatim>\<open>latestSubmission\<close> and the parse of the deadline are
  outside the \<^verbatim>\<open>try\<close> statement. On a queue whose first record has no \<^verbatim>\<open>latestSubmission\<close>
  the pass is left by a KeyError, in all surroundings: the second record, whose deadline
  may have passed, is not looked at, no message is printed, and the store on disk stays as
  it was since \<^verbatim>\<open>save_db\<close> is not reached. A deadline that does not parse ends the pass in
  the same way with a ValueError.
\<close>

theorem missing_deadline_aborts_pass:
  "solve_challenges E now [(''addr1'', ex_entry [ex_no_deadline, ex_c1])] = (Inl KeyError, []) \<and>
   saved [(''addr1'', ex_entry [ex_no_deadline, ex_c1])]
     (solve_challenges E now [(''addr1'', ex_entry [ex_no_deadline, ex_c1])]) =
     [(''addr1'', ex_entry [ex_no_deadline, ex_c1])] \<and>
   solve_challenges (ex_env (Response NotJSON)) 200
     [(''addr1'', ex_entry [(ex_c ''c0'')\<lparr>latestSubmission := Some ''tomorrow''\<rparr>, ex_c1])] = (Inl ValueError, [])"
  by (simp add: solve_challenges_def solve_challenge_def ex_entry_def ex_no_deadline_def ex_c_def
      ex_c1_def saved_def ex_env_def replace_Z_def)

section \<open>Properties of load\_db, save\_db and main\<close>

text \<open>
  C10. When the store file does not exist, or does not parse, or parses to a store without
  addresses, \<^verbatim>\<open>load_db\<close> gives the empty store, and \<^verbatim>\<open>main\<close> rejects both \<^verbatim>\<open>fetch\<close> and
  \<^verbatim>\<open>solve\<close>: the file is as it was, the last message is the one that the database is not
  initialized, and the trace holds no remote request and no solver run.
\<close>

theorem uninitialized_store_rejected:
  assumes "file = None \<or> (\<exists>text. file = Some text \<and> (json_load J text = None \<or> json_load J text = Some []))"
  shows "\<exists>evs. main J fail (Fetch remote) file = (Rejected, file, evs) \<and>
               main J fail (Solve E now) file = (Rejected, file, evs) \<and>
               last evs = Print NotInitialized \<and> filter is_call evs = [] \<and>
               fst (load_db J file) = []"
  using assms by (auto simp: main_def load_db_def is_call_def)

text \<open>The theorem for a missing file, an empty store and a file that does not parse.\<close>

theorem uninitialized_store_rejected_witness:
  "main ex_json None (Fetch (\<lambda>n. GetRequestException)) None =
     (Rejected, None, [Print NotInitialized]) \<and>
   main ex_json None (Solve (ex_env HTTPError) 50) (Some ''{}'') =
     (Rejected, Some ''{}'', [Print NotInitialized]) \<and>
   main ex_json None (Solve (ex_env HTTPError) 50) (Some ''{'') =
     (Rejected, Some ''{'', [Print DecodeWarning, Print NotInitialized])"
  using uninitialized_store_rejected[of None ex_json None "\<lambda>n. GetRequestException" "ex_env HTTPError" 50]
    uninitialized_store_rejected[of "Some ''{}''" ex_json None "\<lambda>n. GetRequestException" "ex_env HTTPError" 50]
    uninitialized_store_rejected[of "Some ''{''" ex_json None "\<lambda>n. GetRequestException" "ex_env HTTPError" 50]
  by (auto simp: ex_json_def main_def load_db_def)

lemma write_chunks_eq:
  "write_chunks fail chunks f =
     (case fail of
        None \<Rightarrow> (None, f @ concat chunks)
      | Some k \<Rightarrow>
          if k < length chunks then (Some OSError, f @ concat (take k chunks))
          else (None, f @ concat chunks))"
proof (induction chunks arbitrary: fail f)
  case Nil
  then show ?case by (simp split: option.splits)
next
  case (Cons c cs)
  show ?case
  proof (cases fail)
    case None
    with Cons show ?thesis by simp
  next
    case (Some k)
    with Cons show ?thesis by (cases k) auto
  qed
qed

text \<open>
  C4, as the code has it. \<^verbatim>\<open>save_db\<close> opens the store file for writing, which empties it,
  and writes the serialization into it chunk by chunk. When no write fails the file holds
  the serialization of the full mapping. When the write of chunk \<open>k\<close> fails the file holds
  the first \<open>k\<close> chunks only. In neither case does the result depend on the document that
  was there before.
\<close>

theorem save_db_truncates_then_writes:
  "save_db J fail db file =
     (case fail of
        None \<Rightarrow> (None, Some (concat (json_dump J db)))
      | Some k \<Rightarrow>
          if k < length (json_dump J db)
          then (Some OSError, Some (concat (take k (json_dump J db))))
          else (None, Some (concat (json_dump J db))))"
  by (simp add: save_db_def write_chunks_eq split: option.splits)

text \<open>
  C4, as stated, fails: a save of a store with the address \<^verbatim>\<open>addr2\<close> over the document
  \<^verbatim>\<open>{addr1}\<close> that fails after the first chunk leaves the file with an opening brace.
\<close>

theorem save_db_failure_loses_previous_document:
  "save_db ex_json (Some 1) [(''addr2'', ex_entry [])] (Some ''{addr1}'') = (Some OSError, Some ''{'') \<and>
   snd (save_db ex_json (Some 1) [(''addr2'', ex_entry [])] (Some ''{addr1}'')) \<noteq> Some ''{addr1}''"
  by (simp add: save_db_def ex_json_def)

section \<open>Status transitions over sequences of commands\<close>

lemma status_moves_refl: "status_moves c c"
  by (simp add: status_moves_def)

lemma status_moves_trans: "status_moves c c' \<Longrightarrow> status_moves c' c'' \<Longrightarrow> status_moves c c''"
  by (auto simp: status_moves_def)

lemma status_moves_final: "status_moves c c' \<Longrightarrow> status c \<noteq> Some ''available'' \<Longrightarrow> c' = c"
  by (auto simp: status_moves_def)


lemma status_moves_id: "status_moves c c' \<Longrightarrow> challengeId c' = challengeId c"
  by (auto simp: status_moves_def)

lemma moves_same_ids: "list_all2 status_moves q q' \<Longrightarrow> map challengeId q' = map challengeId q"
  by (induction rule: list_all2_induct) (simp_all add: status_moves_id)


lemma list_all2_status_moves_refl: "list_all2 status_moves q q"
  by (simp add: list_all2_refl status_moves_refl)

lemma queue_evolves_super: "mset q \<subseteq># mset q' \<Longrightarrow> queue_evolves q q'"
  unfolding queue_evolves_def using list_all2_status_moves_refl by blast

lemma pick_partners:
  "mset p \<subseteq># mset q \<Longrightarrow> list_all2 R q r \<Longrightarrow> \<exists>s. list_all2 R p s \<and> mset s \<subseteq># mset r"
proof (induction p arbitrary: q r)
  case Nil
  then show ?case by simp
next
  case (Cons x xs)
  from Cons.prems(1) have "x \<in> set q"
    by (metis list.set_intros(1) mset_subset_eqD set_mset_mset)
  then obtain as bs where q: "q = as @ x # bs"
    by (auto dest: split_list)
  with Cons.prems(2) obtain as' y bs' where r: "r = as' @ y # bs'"
    and 1: "list_all2 R as as'" and 2: "R x y" and 3: "list_all2 R bs bs'"
    by (auto simp: list_all2_append1 list_all2_Cons1)
  from Cons.prems(1) q have "mset xs \<subseteq># mset (as @ bs)"
    by simp
  moreover from 1 3 have "list_all2 R (as @ bs) (as' @ bs')"
    by (simp add: list_all2_appendI)
  ultimately obtain s where s: "list_all2 R xs s" "mset s \<subseteq># mset (as' @ bs')"
    using Cons.IH by blast
  with 2 r have "list_all2 R (x # xs) (y # s) \<and> mset (y # s) \<subseteq># mset r"
    by simp
  then show ?case by blast
qed

lemma queue_evolves_trans:
  assumes "queue_evolves q q'" and "queue_evolves q' q''"
  shows "queue_evolves q q''"
proof -
  from assms obtain p p' where p: "list_all2 status_moves q p" "mset p \<subseteq># mset q'"
    and p': "list_all2 status_moves q' p'" "mset p' \<subseteq># mset q''"
    by (auto simp: queue_evolves_def)
  from pick_partners[OF p(2) p'(1)] obtain s
    where s: "list_all2 status_moves p s" "mset s \<subseteq># mset p'"
    by blast
  from p(1) s(1) have "list_all2 status_moves q s"
    by (rule list_all2_trans[rotated]) (rule status_moves_trans)
  moreover from s(2) p'(2) have "mset s \<subseteq># mset q''"
    by (rule subset_mset.order_trans)
  ultimately show ?thesis
    by (auto simp: queue_evolves_def)
qed

lemma store_evolves_refl: "store_evolves db db"
  by (auto simp: store_evolves_def intro: queue_evolves_super)

lemma store_evolves_trans:
  "store_evolves db db' \<Longrightarrow> store_evolves db' db'' \<Longrightarrow> store_evolves db db''"
  unfolding store_evolves_def by (meson queue_evolves_trans)

lemma store_evolves_update:
  assumes "\<And>e. map_of db a = Some e \<Longrightarrow> queue_evolves (get_queue e) (get_queue e')"
  shows "store_evolves db (AList.update a e' db)"
  using assms by (auto simp: store_evolves_def AList.update_conv' intro: queue_evolves_super)

lemma init_db_file_evolves: "store_evolves db (init_db_file f db)"
proof (cases f)
  case (Loaded data)
  show ?thesis
    unfolding init_db_file_def Loaded file_read.case
    by (auto simp: update_existing_eq get_queue_def
        intro!: store_evolves_update store_evolves_refl queue_evolves_super
        split: option.splits)
qed (simp_all add: init_db_file_def store_evolves_refl)

lemma init_db_evolves: "store_evolves db (init_db files db)"
proof (induction files arbitrary: db)
  case Nil
  then show ?case by (simp add: store_evolves_refl)
next
  case (Cons f files)
  from store_evolves_trans[OF init_db_file_evolves Cons.IH] show ?case
    by simp
qed

lemma fetch_address_evolves:
  "fetch_address r a db = (Inr db', evs) \<Longrightarrow> store_evolves db db'"
  by (auto simp: fetch_address_def Let_def get_queue_def
      intro!: store_evolves_update store_evolves_refl queue_evolves_super
      split: get_result.splits option.splits sum.splits bool.splits if_splits)

lemma fetch_loop_evolves:
  "fetch_loop remote n as db = (Inr db', evs) \<Longrightarrow> store_evolves db db'"
proof (induction as arbitrary: n db evs)
  case Nil
  then show ?case by (simp add: store_evolves_refl)
next
  case (Cons a as)
  from Cons.prems obtain db1 evs1 evs2
    where 1: "fetch_address (remote n) a db = (Inr db1, evs1)"
      and 2: "fetch_loop remote (Suc n) as db1 = (Inr db', evs2)"
    by (auto split: prod.splits sum.splits)
  from store_evolves_trans[OF fetch_address_evolves[OF 1] Cons.IH[OF 2]] show ?case .
qed

lemma submit_moves:
  assumes "submit E at cid nonce c = (c', evs)"
  shows "c' = c \<or>
    (\<exists>t h. c' = c\<lparr>status := Some ''solved'', solvedAt := Some t, salt := Some nonce, hash := h\<rparr>)"
proof (cases "http_post E at (submit_url (fst at) cid nonce)")
  case ConnectionError
  with assms show ?thesis by (simp add: submit_def)
next
  case HTTPError
  with assms show ?thesis by (simp add: submit_def)
next
  case (Response b)
  let ?c = "c\<lparr>status := Some ''solved'', solvedAt := Some (utcnow E at), salt := Some nonce\<rparr>"
  have same: "?c = ?c\<lparr>hash := hash c\<rparr>" by simp
  from assms Response have "c' = ?c \<or> (\<exists>h. c' = ?c\<lparr>hash := Some h\<rparr>)"
    by (auto simp: submit_def Let_def split: body.splits option.splits)
  then show ?thesis
  proof
    assume "c' = ?c"
    with same have "c' = ?c\<lparr>hash := hash c\<rparr>" by simp
    then show ?thesis by blast
  next
    assume "\<exists>h. c' = ?c\<lparr>hash := Some h\<rparr>"
    then show ?thesis by blast
  qed
qed

lemma attempt_moves:
  assumes "attempt E at cid ls c = (c', evs)" and "status c = Some ''available''"
  shows "status_moves c c'"
proof -
  from assms(1) have "c' = c \<or> (\<exists>nonce evs'. submit E at cid nonce c = (c', evs'))"
    by (auto simp: attempt_def Let_def
        split: option.splits solver_result.splits prod.splits)
  with assms(2) show ?thesis
    unfolding status_moves_def by (blast dest: submit_moves)
qed

lemma solve_challenge_moves:
  "solve_challenge E now a n c = (Inr c', evs) \<Longrightarrow> status_moves c c'"
  by (auto simp: solve_challenge_def status_moves_refl
      split: option.splits if_splits datetime.splits prod.splits
      dest: attempt_moves)
     (simp add: status_moves_def)

lemma solve_queue_moves:
  assumes "solve_queue E now a n q = (Inr q', evs)"
  shows "list_all2 status_moves q q'"
  using solve_queue_nth[OF assms]
  by (auto simp: list_all2_conv_all_nth dest: solve_challenge_moves)

lemma solve_challenges_evolves:
  assumes "solve_challenges E now db = (Inr db', evs)"
  shows "store_evolves db db'"
  unfolding store_evolves_def
proof (intro allI impI)
  fix a e
  assume "map_of db a = Some e"
  note look = solve_entries_lookup[OF assms[unfolded solve_challenges_def] this]
  show "\<exists>e'. map_of db' a = Some e' \<and> queue_evolves (get_queue e) (get_queue e')"
  proof (cases "challenge_queue e")
    case None
    with look show ?thesis
      by (simp add: get_queue_def queue_evolves_def)
  next
    case (Some q)
    with look obtain q' evs' where 1: "solve_queue E now a 0 q = (Inr q', evs')"
      and 2: "map_of db' a = Some (e\<lparr>challenge_queue := Some q'\<rparr>)"
      by auto
    from solve_queue_moves[OF 1] have "queue_evolves q q'"
      unfolding queue_evolves_def by (intro exI[where x = q']) simp
    with 2 Some show ?thesis
      by (simp add: get_queue_def)
  qed
qed

lemma run_command_evolves: "store_evolves db (run_command cmd db)"
proof (cases cmd)
  case (Init files)
  then show ?thesis by (simp add: run_command_def init_db_evolves)
next
  case (Fetch remote)
  show ?thesis
  proof (cases "fetch_challenges remote (map fst db) db")
    case (Pair r evs)
    with Fetch show ?thesis
      by (cases r)
        (auto simp: run_command_def saved_def store_evolves_refl fetch_challenges_def
          dest: fetch_loop_evolves)
  qed
next
  case (Solve E now)
  show ?thesis
  proof (cases "solve_challenges E now db")
    case (Pair r evs)
    with Solve show ?thesis
      by (cases r)
        (auto simp: run_command_def saved_def store_evolves_refl dest: solve_challenges_evolves)
  qed
qed

lemma run_commands_evolves: "store_evolves db (run_commands cmds db)"
proof (induction cmds arbitrary: db)
  case Nil
  then show ?case by (simp add: store_evolves_refl)
next
  case (Cons cmd cmds)
  from store_evolves_trans[OF run_command_evolves Cons.IH] show ?case
    by simp
qed


text \<open>
  C9. Over every sequence of import, fetch and solve commands, every record of every queue
  of the store has a place of its own in the queue of the same address at the end, where it
  has moved forward: it is unchanged, or it was \<^verbatim>\<open>available\<close> and is now \<^verbatim>\<open>expired\<close> or
  \<^verbatim>\<open>solved\<close>. In particular a record that is not \<^verbatim>\<open>available\<close> is in the final queue exactly
  as it was, so nothing leaves \<^verbatim>\<open>solved\<close> or \<^verbatim>\<open>expired\<close> and nothing returns to \<^verbatim>\<open>available\<close>.
\<close>

theorem status_only_moves_forward:
  assumes "map_of db a = Some e"
  shows "\<exists>e' p. map_of (run_commands cmds db) a = Some e' \<and>
           list_all2 status_moves (get_queue e) p \<and> mset p \<subseteq># mset (get_queue e') \<and>
           (\<forall>c\<in>set (get_queue e). status c \<noteq> Some ''available'' \<longrightarrow> c \<in> set (get_queue e'))"
proof -
  from run_commands_evolves[of db cmds] assms obtain e'
    where e': "map_of (run_commands cmds db) a = Some e'"
      and "queue_evolves (get_queue e) (get_queue e')"
    unfolding store_evolves_def by blast
  then obtain p
    where p: "list_all2 status_moves (get_queue e) p" and sub: "mset p \<subseteq># mset (get_queue e')"
    unfolding queue_evolves_def by blast
  have "c \<in> set (get_queue e')" if c: "c \<in> set (get_queue e)" and final: "status c \<noteq> Some ''available''" for c
  proof -
    from c obtain i where i: "i < length (get_queue e)" "get_queue e ! i = c"
      by (auto simp: in_set_conv_nth)
    with p have "status_moves c (p ! i)" and "i < length p"
      by (auto simp: list_all2_conv_all_nth)
    with final have "c \<in> set p"
      by (auto dest: status_moves_final)
    with sub show ?thesis
      by (metis mset_subset_eqD set_mset_mset)
  qed
  with e' p sub show ?thesis by blast
qed

text \<open>
  The theorem at a store with an expired record, through a fetch of the same challenge, an
  import of a file that lists it as available, and a solve pass before its deadline.
\<close>

theorem status_only_moves_forward_witness:
  "\<exists>e'. map_of (run_commands
                  [Fetch (\<lambda>n. Challenge (ex_data ''c1'')), Init [Loaded (ex_entry [ex_c1])],
                   Solve (ex_env (Response NotJSON)) 50]
                  [(''addr1'', ex_entry [ex_c1\<lparr>status := Some ''expired''\<rparr>])]) ''addr1'' = Some e' \<and>
        ex_c1\<lparr>status := Some ''expired''\<rparr> \<in> set (get_queue e')"
  using status_only_moves_forward[of "[(''addr1'', ex_entry [ex_c1\<lparr>status := Some ''expired''\<rparr>])]"
      "''addr1''" "ex_entry [ex_c1\<lparr>status := Some ''expired''\<rparr>]"
      "[Fetch (\<lambda>n. Challenge (ex_data ''c1'')), Init [Loaded (ex_entry [ex_c1])],
        Solve (ex_env (Response NotJSON)) 50]"]
  by (auto simp: get_queue_def ex_entry_def)

section \<open>The order of the queues\<close>

lemma every_queue_iff:
  "every_queue P db \<longleftrightarrow> (\<forall>a e. map_of db a = Some e \<longrightarrow> P (get_queue e))"
  by (auto simp: every_queue_def list_all_iff dest: map_of_SomeD split: option.splits)
     (metis fst_conv map_of_SomeD)

lemma sorted_unique_sort:
  assumes "distinct (map challengeId q)"
  shows "sorted_unique (sort_key challengeId q)"
proof -
  have "mset (map challengeId (sort_key challengeId q)) = mset (map challengeId q)"
    by simp
  then have "distinct (map challengeId (sort_key challengeId q)) = distinct (map challengeId q)"
    by (rule mset_eq_imp_distinct_iff)
  with assms show ?thesis
    by (simp add: sorted_unique_def)
qed

lemma distinct_ids_fresh:
  assumes "distinct (map challengeId cs)"
  shows "distinct (map challengeId (fresh q cs))"
proof -
  have "distinct (map challengeId (takeWhile (\<lambda>c. challengeId c \<noteq> None) cs @
                                   dropWhile (\<lambda>c. challengeId c \<noteq> None) cs))"
    using assms by simp
  then have "distinct (map challengeId (takeWhile (\<lambda>c. challengeId c \<noteq> None) cs))"
    unfolding map_append distinct_append by blast
  then show ?thesis
    unfolding fresh_def by (rule distinct_map_filter)
qed

lemma sorted_unique_merge:
  assumes "sorted_unique q" and "\<forall>c\<in>set q. challengeId c \<noteq> None"
    and "distinct (map challengeId cs)"
  shows "sorted_unique (sort_key challengeId (q @ fresh q cs))"
proof (rule sorted_unique_sort)
  have "challengeId ` set q \<inter> challengeId ` set (fresh q cs) = {}"
  proof (rule ccontr)
    assume "challengeId ` set q \<inter> challengeId ` set (fresh q cs) \<noteq> {}"
    then obtain c c' where c: "c \<in> set q" and c': "c' \<in> set (fresh q cs)"
      and eq: "challengeId c = challengeId c'"
      by auto
    from c assms(2) obtain i where i: "challengeId c = Some i"
      by auto
    with c have "i \<in> set (map (\<lambda>c. the (challengeId c)) q)"
      by force
    with c' eq i show False
      by (simp add: fresh_def)
  qed
  with assms(1) distinct_ids_fresh[OF assms(3)]
  show "distinct (map challengeId (q @ fresh q cs))"
    by (simp add: sorted_unique_def)
qed

lemma sorted_unique_add:
  assumes "sorted_unique q" and "any_challengeId (challenge_id d) q = Inr False"
  shows "sorted_unique (sort_key challengeId (q @ [new_challenge d]))"
proof (rule sorted_unique_sort)
  from any_challengeId_False[OF assms(2)] have "Some (challenge_id d) \<notin> challengeId ` set q"
    by simp
  with assms(1) show "distinct (map challengeId (q @ [new_challenge d]))"
    by (simp add: sorted_unique_def new_challenge_def)
qed

lemma every_queue_update:
  "every_queue P db \<Longrightarrow> P (get_queue e) \<Longrightarrow> every_queue P (AList.update a e db)"
  by (simp add: every_queue_iff AList.update_conv')

lemma init_db_file_sorted_unique:
  assumes "every_queue sorted_unique db" and "well_formed_file f"
  shows "every_queue sorted_unique (init_db_file f db)"
proof (cases f)
  case (Loaded data)
  from assms(2) Loaded have ids: "\<forall>c\<in>set (get_queue data). challengeId c \<noteq> None"
    and su: "sorted_unique (get_queue data)"
    by (simp_all add: well_formed_file_def list_all_iff)
  have known: "every_queue sorted_unique (update_existing a data e db)" if "map_of db a = Some e" for a e
  proof -
    from assms(1) that have "sorted_unique (get_queue e)"
      by (simp add: every_queue_iff)
    with su show ?thesis
      using assms(1) ids
      by (auto simp: update_existing_eq get_queue_def[of "e\<lparr>challenge_queue := _\<rparr>"] sorted_unique_def[of "get_queue data"]
          intro!: every_queue_update sorted_unique_merge)
  qed
  show ?thesis
    unfolding init_db_file_def Loaded file_read.case
    using assms(1) su known
    by (auto simp: get_queue_def[of "\<lparr>registration_receipt = _, challenge_queue = _\<rparr>"]
        intro!: every_queue_update split: option.splits)
qed (use assms(1) in \<open>simp_all add: init_db_file_def\<close>)

lemma init_db_sorted_unique:
  "every_queue sorted_unique db \<Longrightarrow> list_all well_formed_file files \<Longrightarrow>
   every_queue sorted_unique (init_db files db)"
  by (induction files arbitrary: db) (simp_all add: init_db_file_sorted_unique)

lemma fetch_address_sorted_unique:
  assumes "every_queue sorted_unique db" and "fetch_address r a db = (Inr db', evs)"
  shows "every_queue sorted_unique db'"
proof (cases "\<exists>d e. r = Challenge d \<and> map_of db a = Some e \<and> any_challengeId (challenge_id d) (get_queue e) = Inr False")
  case True
  then obtain d e where r: "r = Challenge d" and e: "map_of db a = Some e"
    and new: "any_challengeId (challenge_id d) (get_queue e) = Inr False"
    by blast
  from assms(1) e have "sorted_unique (get_queue e)"
    by (simp add: every_queue_iff)
  from sorted_unique_add[OF this new] assms r e new show ?thesis
    by (auto simp: fetch_address_def get_queue_def[of "e\<lparr>challenge_queue := _\<rparr>"] intro!: every_queue_update)
next
  case False
  with assms(2) have "db' = db"
    by (auto simp: fetch_address_def Let_def
        split: get_result.splits option.splits sum.splits bool.splits if_splits)
  with assms(1) show ?thesis by simp
qed

lemma fetch_loop_sorted_unique:
  "every_queue sorted_unique db \<Longrightarrow> fetch_loop remote n as db = (Inr db', evs) \<Longrightarrow>
   every_queue sorted_unique db'"
proof (induction as arbitrary: n db evs)
  case Nil
  then show ?case by simp
next
  case (Cons a as)
  from Cons.prems(2) obtain db1 evs1 evs2
    where 1: "fetch_address (remote n) a db = (Inr db1, evs1)"
      and 2: "fetch_loop remote (Suc n) as db1 = (Inr db', evs2)"
    by (auto split: prod.splits sum.splits)
  from Cons.IH[OF fetch_address_sorted_unique[OF Cons.prems(1) 1] 2] show ?case .
qed


lemma solve_challenges_sorted_unique:
  assumes "every_queue sorted_unique db" and "solve_challenges E now db = (Inr db', evs)"
  shows "every_queue sorted_unique db'"
  unfolding every_queue_iff
proof (intro allI impI)
  fix a e'
  assume e': "map_of db' a = Some e'"
  from assms(2) have keys: "map fst db' = map fst db"
    by (simp add: solve_challenges_def solve_entries_keys)
  from e' have "a \<in> fst ` set db'"
    by (auto dest: map_of_SomeD intro: rev_image_eqI)
  with keys have "a \<in> fst ` set db"
    by (metis set_map)
  then have "map_of db a \<noteq> None"
    by (simp add: map_of_eq_None_iff)
  then obtain e where e: "map_of db a = Some e"
    by blast
  from assms(1) e have su: "sorted_unique (get_queue e)"
    by (simp add: every_queue_iff)
  note look = solve_entries_lookup[OF assms(2)[unfolded solve_challenges_def] e]
  show "sorted_unique (get_queue e')"
  proof (cases "challenge_queue e")
    case None
    with look e' su show ?thesis by simp
  next
    case (Some q)
    with look obtain q' evs' where 1: "solve_queue E now a 0 q = (Inr q', evs')"
      and 2: "map_of db' a = Some (e\<lparr>challenge_queue := Some q'\<rparr>)"
      by auto
    from moves_same_ids[OF solve_queue_moves[OF 1]] su Some have "sorted_unique q'"
      by (simp add: sorted_unique_def get_queue_def)
    with 2 e' show ?thesis
      by (auto simp: get_queue_def)
  qed
qed

lemma run_command_sorted_unique:
  assumes "every_queue sorted_unique db" and "well_formed_import cmd"
  shows "every_queue sorted_unique (run_command cmd db)"
proof (cases cmd)
  case (Init files)
  with assms show ?thesis
    by (simp add: run_command_def well_formed_import_def init_db_sorted_unique)
next
  case (Fetch remote)
  show ?thesis
  proof (cases "fetch_challenges remote (map fst db) db")
    case (Pair r evs)
    with Fetch assms(1) show ?thesis
      by (cases r)
        (auto simp: run_command_def saved_def fetch_challenges_def
          dest: fetch_loop_sorted_unique)
  qed
next
  case (Solve E now)
  show ?thesis
  proof (cases "solve_challenges E now db")
    case (Pair r evs)
    with Solve assms(1) show ?thesis
      by (cases r)
        (auto simp: run_command_def saved_def dest: solve_challenges_sorted_unique)
  qed
qed


text \<open>
  C1, as stated, fails: the import of a file for an address that the store does not know
  stores the queue of the file as it is. From the empty store, the import of a file that
  lists \<^verbatim>\<open>c2\<close> before \<^verbatim>\<open>c1\<close> leaves a queue that is not sorted.
\<close>

theorem import_new_address_unsorted:
  "\<not> every_queue sorted_unique (run_commands [Init [ex_unsorted_file]] [])"
  by (simp add: run_command_def init_db_file_def ex_unsorted_file_def ex_entry_def ex_c_def
      ex_c1_def get_queue_def every_queue_def sorted_unique_def)

text \<open>
  C1, as the code has it. When every queue of the store is sorted in ascending order of
  \<^verbatim>\<open>challengeId\<close> without duplicate ids, and every file that is imported has itself a queue
  that is sorted without duplicate ids, each record with a \<^verbatim>\<open>challengeId\<close>, then after every
  sequence of commands every queue of the store is sorted without duplicate ids.
\<close>

theorem sorted_unique_preserved:
  assumes "every_queue sorted_unique db" and "list_all well_formed_import cmds"
  shows "every_queue sorted_unique (run_commands cmds db)"
  using assms
proof (induction cmds arbitrary: db)
  case Nil
  then show ?case by simp
next
  case (Cons cmd cmds)
  from Cons.prems have "every_queue sorted_unique (run_command cmd db)"
    by (simp add: run_command_sorted_unique)
  with Cons.prems(2) Cons.IH show ?case
    by simp
qed

text \<open>
  The theorem from the empty store: an import, a fetch of a challenge whose id lies between
  the two imported ones, and a second import for the same address.
\<close>

theorem sorted_unique_preserved_witness:
  "every_queue sorted_unique
     (run_commands
        [Init [Loaded (ex_entry [ex_c ''c1'', ex_c ''c3''])],
         Fetch (\<lambda>n. Challenge (ex_data ''c2'')),
         Init [Loaded (ex_entry [ex_c ''c0''])]] [])"
  using sorted_unique_preserved[of "[]"
        "[Init [Loaded (ex_entry [ex_c ''c1'', ex_c ''c3''])],
          Fetch (\<lambda>n. Challenge (ex_data ''c2'')),
          Init [Loaded (ex_entry [ex_c ''c0''])]]"]
  by (simp add: every_queue_def well_formed_import_def well_formed_file_def sorted_unique_def
      ex_entry_def ex_c_def ex_c1_def get_queue_def)

end
